theory Spec2Isabelle
  imports Complex_Main
begin

section \<open>Counted loops\<close>

text \<open>
  Every loop of the C sources that this development models has the shape
  \<^verbatim>\<open>for (i = a; i < n; i++) body\<close>. It is written once, as a recursive function
  on the counter that threads the state the body mutates.
\<close>

function for_loop :: "nat \<Rightarrow> nat \<Rightarrow> (nat \<Rightarrow> 's \<Rightarrow> 's) \<Rightarrow> 's \<Rightarrow> 's" where
  "for_loop i n body s = (if i < n then for_loop (Suc i) n body (body i s) else s)"
  by pat_completeness auto
termination
  by (relation "measure (\<lambda>(i, n, body, s). n - i)") auto

declare for_loop.simps [simp del]

section \<open>Data model (variant\_calling.h)\<close>

text \<open>
  The structs of the header. A C \<^verbatim>\<open>double\<close> is modelled by a real number (exact
  arithmetic), a \<^verbatim>\<open>size_t\<close> by a natural number: positions and lengths are bounded
  by file sizes and never reach \<open>2 ^ 64\<close>. The array of an \<^verbatim>\<open>IndividualVariants\<close>
  is the list of its first \<^verbatim>\<open>num_entries\<close> slots, so \<^verbatim>\<open>num_entries\<close> is the length of
  \<open>entries\<close>.
\<close>

record VariantParams =
  transition_weight :: real
  transversion_weight :: real
  cpg_multiplier :: real
  cluster_factor :: real
  logistic_scale :: real

record VariantEntry =
  col :: nat
  score :: real

record IndividualVariants =
  entries :: "VariantEntry list"
  capacity :: nat

definition num_entries :: "IndividualVariants \<Rightarrow> nat" where
  "num_entries iv = length (entries iv)"

definition init_individual_variants :: IndividualVariants where
  "init_individual_variants = \<lparr>entries = [], capacity = 0\<rparr>"

section \<open>Variant scoring (variant\_calling.c)\<close>

definition transitions :: "string list" where
  "transitions = [''AG'', ''GA'', ''CT'', ''TC'']"

fun scan_transitions :: "string list \<Rightarrow> char \<Rightarrow> char \<Rightarrow> bool" where
  "scan_transitions [] ref alt = False"
| "scan_transitions (t # ts) ref alt =
     (if ref = t ! 0 \<and> alt = t ! 1 then True else scan_transitions ts ref alt)"

definition calculate_substitution_score :: "char \<Rightarrow> char \<Rightarrow> VariantParams \<Rightarrow> real" where
  "calculate_substitution_score ref alt params =
     (if scan_transitions transitions ref alt then transition_weight params
      else transversion_weight params)"

text \<open>
  The two context helpers are static and called from the scoring loop only, with
  \<open>pos < chunk_len\<close>; there \<open>chunk_len - 1\<close> does not wrap.
\<close>

definition is_cpg_site :: "string \<Rightarrow> nat \<Rightarrow> nat \<Rightarrow> bool" where
  "is_cpg_site ref_chunk pos chunk_len =
     (if 0 < pos \<and> pos < chunk_len - 1
      then (ref_chunk ! pos = CHR ''C'' \<and> ref_chunk ! (pos + 1) = CHR ''G'') \<or>
           (ref_chunk ! pos = CHR ''G'' \<and> ref_chunk ! (pos - 1) = CHR ''C'')
      else False)"

definition context_start :: "nat \<Rightarrow> nat" where
  "context_start pos = (if pos > 2 then pos - 2 else 0)"

definition context_end :: "nat \<Rightarrow> nat \<Rightarrow> nat" where
  "context_end pos chunk_len = (if pos + 2 < chunk_len then pos + 2 else chunk_len - 1)"

definition count_context_variants :: "string \<Rightarrow> string \<Rightarrow> nat \<Rightarrow> nat \<Rightarrow> nat" where
  "count_context_variants ref_chunk sample_chunk pos chunk_len =
     for_loop (context_start pos) (Suc (context_end pos chunk_len))
       (\<lambda>i count. if ref_chunk ! i = sample_chunk ! i then count else count + 1) 0"

text \<open>
  \<^verbatim>\<open>add_variant\<close>: capacity doubling (from 1024), then the append. A failing
  \<^verbatim>\<open>realloc\<close> terminates the process; memory is assumed to suffice.
\<close>

definition add_variant :: "IndividualVariants \<Rightarrow> nat \<Rightarrow> real \<Rightarrow> IndividualVariants" where
  "add_variant iv c sc =
     (let new_cap = (if num_entries iv = capacity iv
                     then (if capacity iv = 0 then 1024 else capacity iv * 2)
                     else capacity iv)
      in \<lparr>entries = entries iv @ [\<lparr>col = c, score = sc\<rparr>], capacity = new_cap\<rparr>)"

definition logistic :: "real \<Rightarrow> real \<Rightarrow> real" where
  "logistic scale s = 1 / (1 + exp (- scale * s))"

definition raw_score :: "string \<Rightarrow> string \<Rightarrow> nat \<Rightarrow> nat \<Rightarrow> VariantParams \<Rightarrow> real" where
  "raw_score ref_chunk sample_chunk chunk_len i params =
     (let score0 = calculate_substitution_score (ref_chunk ! i) (sample_chunk ! i) params;
          score1 = (if is_cpg_site ref_chunk i chunk_len
                    then score0 * cpg_multiplier params else score0);
          ctx_vars = count_context_variants ref_chunk sample_chunk i chunk_len
      in score1 * (1 + cluster_factor params * real ctx_vars))"

text \<open>
  The body of the loop of \<^verbatim>\<open>call_variants_chunk\<close> at index \<open>i\<close>. The pointer
  arguments are values here, so the guard on null pointers has no counterpart.
\<close>

definition chunk_step ::
  "string \<Rightarrow> string \<Rightarrow> nat \<Rightarrow> nat \<Rightarrow> VariantParams \<Rightarrow> nat \<Rightarrow> IndividualVariants
     \<Rightarrow> IndividualVariants" where
  "chunk_step ref_chunk sample_chunk chunk_len global_offset params i ivar =
     (if ref_chunk ! i = sample_chunk ! i then ivar
      else
        let ref_base = ref_chunk ! i; alt_base = sample_chunk ! i in
        if ref_base \<noteq> CHR ''A'' \<and> ref_base \<noteq> CHR ''C'' \<and> ref_base \<noteq> CHR ''G'' \<and>
           ref_base \<noteq> CHR ''T'' then ivar
        else if alt_base \<noteq> CHR ''A'' \<and> alt_base \<noteq> CHR ''C'' \<and> alt_base \<noteq> CHR ''G'' \<and>
           alt_base \<noteq> CHR ''T'' then ivar
        else
          let logistic_score =
                logistic (logistic_scale params)
                  (raw_score ref_chunk sample_chunk chunk_len i params)
          in if logistic_score > 0 then add_variant ivar (global_offset + i) logistic_score
             else ivar)"

definition call_variants_chunk ::
  "string \<Rightarrow> string \<Rightarrow> nat \<Rightarrow> nat \<Rightarrow> IndividualVariants \<Rightarrow> VariantParams
     \<Rightarrow> IndividualVariants" where
  "call_variants_chunk ref_chunk sample_chunk chunk_len global_offset ivar params =
     for_loop 0 chunk_len (chunk_step ref_chunk sample_chunk chunk_len global_offset params) ivar"

text \<open>The global \<^verbatim>\<open>params\<close> of analysis.c, the default scoring parameters.\<close>

definition params :: VariantParams where
  "params = \<lparr>transition_weight = 28 / 100, transversion_weight = 11 / 10,
             cpg_multiplier = 18 / 10, cluster_factor = 12 / 100, logistic_scale = 6 / 10\<rparr>"

section \<open>Sparse matrix operations (pca.c)\<close>

text \<open>
  The matrix \<open>X\<close> has one row per individual; row \<open>i\<close> holds the entries of
  \<open>ivars ! i\<close>. Both operations write into a buffer the caller owns, which the model
  takes and returns. The loop counters are C \<^verbatim>\<open>int\<close>s; a loop with a bound that is
  not positive does not run, which is the loop to the natural number \<open>0\<close>.
\<close>

definition multiply_X_vec ::
  "IndividualVariants list \<Rightarrow> nat \<Rightarrow> real list \<Rightarrow> real list \<Rightarrow> real list" where
  "multiply_X_vec ivars n_inds v y =
     (let y0 = for_loop 0 n_inds (\<lambda>i y. y[i := 0]) y
      in for_loop 0 n_inds
           (\<lambda>i y. let indv = ivars ! i in
              for_loop 0 (num_entries indv)
                (\<lambda>e y. let c = col (entries indv ! e); sc = score (entries indv ! e)
                       in y[i := y ! i + sc * v ! c]) y) y0)"

definition multiply_Xt_vec ::
  "IndividualVariants list \<Rightarrow> nat \<Rightarrow> nat \<Rightarrow> real list \<Rightarrow> real list \<Rightarrow> real list" where
  "multiply_Xt_vec ivars n_inds d y z =
     (let z0 = replicate d 0 @ drop d z
      in for_loop 0 n_inds
           (\<lambda>i z. let y_i = y ! i; indv = ivars ! i in
              for_loop 0 (num_entries indv)
                (\<lambda>e z. let c = col (entries indv ! e); sc = score (entries indv ! e)
                       in z[c := z ! c + sc * y_i]) z) z0)"

definition remove_component :: "real list \<Rightarrow> real list \<Rightarrow> nat \<Rightarrow> real list" where
  "remove_component vec pc_vec len =
     (let dot = for_loop 0 len (\<lambda>i dot. dot + vec ! i * pc_vec ! i) 0
      in for_loop 0 len (\<lambda>i vec. vec[i := vec ! i - dot * pc_vec ! i]) vec)"

section \<open>Score normalisation (pca.c)\<close>

text \<open>
  One pass of the outer loop of \<^verbatim>\<open>z_score_pca_scores\<close>: the column \<open>comp_i\<close> of the
  row-major \<open>n_inds \<times> top_k\<close> matrix is centred, then divided by its sample standard
  deviation, or by 1 when the variance is not positive. With \<open>n_inds = 0\<close> the mean is
  not used, so its division by zero is not observable.
\<close>

definition z_score_column :: "nat \<Rightarrow> nat \<Rightarrow> nat \<Rightarrow> real list \<Rightarrow> real list" where
  "z_score_column n_inds top_k comp_i scores =
     (let sum = for_loop 0 n_inds (\<lambda>i sum. sum + scores ! (i * top_k + comp_i)) 0;
          mean = sum / real n_inds;
          scores1 = for_loop 0 n_inds
            (\<lambda>i sc. sc[i * top_k + comp_i := sc ! (i * top_k + comp_i) - mean]) scores;
          sum_sq = for_loop 0 n_inds
            (\<lambda>i sum_sq. let val = scores1 ! (i * top_k + comp_i) in sum_sq + val * val) 0;
          variance = (if n_inds > 1 then sum_sq / real (n_inds - 1) else 0);
          stddev = (if variance > 0 then sqrt variance else 1)
      in for_loop 0 n_inds
           (\<lambda>i sc. sc[i * top_k + comp_i := sc ! (i * top_k + comp_i) / stddev]) scores1)"

definition z_score_pca_scores :: "real list \<Rightarrow> nat \<Rightarrow> nat \<Rightarrow> real list" where
  "z_score_pca_scores scores n_inds top_k =
     for_loop 0 top_k (z_score_column n_inds top_k) scores"

section \<open>Allocation (utils.c)\<close>

text \<open>
  \<^verbatim>\<open>secure_alloc\<close> terminates the process on a request of zero bytes. The sizes are
  computed in \<^verbatim>\<open>size_t\<close>, modulo \<open>2 ^ 64\<close>, with a C \<^verbatim>\<open>int\<close> converted first.
  \<^verbatim>\<open>calloc\<close> is assumed to grant every other request (its failure terminates the
  process too); the memory it returns is zeroed.
\<close>

datatype failure = ZeroSizeRequest | OpenFailed | InvalidArgs

definition size_of_int :: "int \<Rightarrow> nat" where
  "size_of_int x = nat (x mod 2 ^ 64)"

definition size_mul :: "nat \<Rightarrow> nat \<Rightarrow> nat" where
  "size_mul a b = (a * b) mod 2 ^ 64"

definition secure_alloc :: "nat \<Rightarrow> failure + unit" where
  "secure_alloc nbytes = (if nbytes = 0 then Inl ZeroSizeRequest else Inr ())"

section \<open>Partial PCA by deflated power iteration (pca.c)\<close>

text \<open>
  An eigenvalue is a \<^verbatim>\<open>double\<close> quotient whose divisor \<open>n_inds - 1\<close> the code does not
  guard. A \<^verbatim>\<open>double\<close> division by zero gives an infinity or a NaN, which is no real
  number: \<open>None\<close>. Every other division of pca.c has a divisor that the code makes
  nonzero (a guarded norm, a positive standard deviation, \<^verbatim>\<open>RAND_MAX\<close>).
\<close>

definition double_div :: "real \<Rightarrow> real \<Rightarrow> real option" where
  "double_div a b = (if b = 0 then None else Some (a / b))"

record PartialPCA_Result =
  num_components :: int
  eigenvalues :: "real option list"
  pc_vectors :: "real list"
  scores :: "real list"

text \<open>
  The working buffers of \<^verbatim>\<open>partial_pca_sparse\<close> between two passes of its component
  loop, with the number of calls of \<^verbatim>\<open>rand()\<close> made so far. The values \<^verbatim>\<open>rand()\<close>
  returns are a parameter \<open>rand_seq\<close>; \<^verbatim>\<open>RAND_MAX\<close> is the one of glibc.
  \<open>top_k\<close> and \<open>n_inds\<close> are C \<^verbatim>\<open>int\<close>s: they enter the allocation sizes and the
  divisor of the eigenvalue as integers, and bound the loops as natural numbers. Of the
  six allocations the model keeps five: the request for \<open>z\<close> repeats the one for \<open>v\<close>.
\<close>

record pca_state =
  st_eigenvalues :: "real option list"
  st_pc_vectors :: "real list"
  st_v :: "real list"
  st_z :: "real list"
  st_y :: "real list"
  st_rand :: nat

definition RAND_MAX :: nat where
  "RAND_MAX = 2147483647"

definition random_init :: "(nat \<Rightarrow> nat) \<Rightarrow> nat \<Rightarrow> real list \<times> nat \<Rightarrow> real list \<times> nat" where
  "random_init rand_seq d vk =
     for_loop 0 d
       (\<lambda>c (v, k). (v[c := real (rand_seq k) / real RAND_MAX - 5 / 10], Suc k)) vk"

definition remove_previous :: "real list \<Rightarrow> nat \<Rightarrow> nat \<Rightarrow> real list \<Rightarrow> real list" where
  "remove_previous pcv comp_i d vec =
     for_loop 0 comp_i (\<lambda>prev vec. remove_component vec (drop (prev * d) pcv) d) vec"

definition guarded_norm :: "real list \<Rightarrow> nat \<Rightarrow> real" where
  "guarded_norm vec d =
     (let norm = sqrt (for_loop 0 d (\<lambda>c norm. norm + vec ! c * vec ! c) 0)
      in if norm < 1 / 10 ^ 15 then 1 else norm)"

definition power_step ::
  "IndividualVariants list \<Rightarrow> nat \<Rightarrow> nat \<Rightarrow> real list \<Rightarrow> nat
     \<Rightarrow> real list \<times> real list \<times> real list \<Rightarrow> real list \<times> real list \<times> real list" where
  "power_step ivars n_inds d pcv comp_i vzy =
     (case vzy of (v, z, y) \<Rightarrow>
        let y1 = multiply_X_vec ivars n_inds v y;
            z1 = multiply_Xt_vec ivars n_inds d y1 z;
            z2 = remove_previous pcv comp_i d z1;
            normz = guarded_norm z2 d;
            v1 = for_loop 0 d (\<lambda>c v. v[c := z2 ! c / normz]) v
        in (v1, z2, y1))"

definition eigenvalue_estimate :: "real list \<Rightarrow> int \<Rightarrow> real option" where
  "eigenvalue_estimate y n_inds =
     (let sum_sq = for_loop 0 (nat n_inds) (\<lambda>i sum_sq. sum_sq + y ! i * y ! i) 0
      in double_div sum_sq (real_of_int (n_inds - 1)))"

definition pca_component ::
  "(nat \<Rightarrow> nat) \<Rightarrow> IndividualVariants list \<Rightarrow> int \<Rightarrow> nat \<Rightarrow> nat \<Rightarrow> pca_state \<Rightarrow> pca_state" where
  "pca_component rand_seq ivars n_inds d comp_i st =
     (let (v0, k) = random_init rand_seq d (st_v st, st_rand st);
          v1 = remove_previous (st_pc_vectors st) comp_i d v0;
          norm = guarded_norm v1 d;
          v2 = for_loop 0 d (\<lambda>c v. v[c := v ! c / norm]) v1;
          (v3, z3, y3) = for_loop 0 20
            (\<lambda>iter. power_step ivars (nat n_inds) d (st_pc_vectors st) comp_i)
            (v2, st_z st, st_y st);
          pcv = take (comp_i * d) (st_pc_vectors st) @ take d v3 @
                drop (comp_i * d + d) (st_pc_vectors st);
          y4 = multiply_X_vec ivars (nat n_inds) v3 y3
      in \<lparr>st_eigenvalues = (st_eigenvalues st)[comp_i := eigenvalue_estimate y4 n_inds],
          st_pc_vectors = pcv, st_v = v3, st_z = z3, st_y = y4, st_rand = k\<rparr>)"

definition build_scores ::
  "IndividualVariants list \<Rightarrow> nat \<Rightarrow> nat \<Rightarrow> nat \<Rightarrow> real list \<Rightarrow> nat
     \<Rightarrow> real list \<times> real list \<Rightarrow> real list \<times> real list" where
  "build_scores ivars n_inds d top_k pcv comp_i sy =
     (case sy of (sc, y) \<Rightarrow>
        let y1 = multiply_X_vec ivars n_inds (drop (comp_i * d) pcv) y
        in (for_loop 0 n_inds (\<lambda>i sc. sc[i * top_k + comp_i := y1 ! i]) sc, y1))"

text \<open>The buffers as \<^verbatim>\<open>secure_alloc\<close> returns them: zeroed, of the sizes requested.\<close>

definition pca_init :: "int \<Rightarrow> nat \<Rightarrow> int \<Rightarrow> pca_state" where
  "pca_init n_inds d top_k =
     \<lparr>st_eigenvalues = replicate (nat top_k) (Some 0),
      st_pc_vectors = replicate (nat top_k * d) 0,
      st_v = replicate d 0, st_z = replicate d 0,
      st_y = replicate (nat n_inds) 0, st_rand = 0\<rparr>"

definition partial_pca_sparse ::
  "(nat \<Rightarrow> nat) \<Rightarrow> IndividualVariants list \<Rightarrow> int \<Rightarrow> nat \<Rightarrow> int
     \<Rightarrow> failure + PartialPCA_Result" where
  "partial_pca_sparse rand_seq ivars n_inds d top_k =
     (case secure_alloc (size_mul (size_of_int top_k) 8) of Inl e \<Rightarrow> Inl e | Inr _ \<Rightarrow>
      case secure_alloc (size_mul (size_mul (size_of_int top_k) d) 8) of Inl e \<Rightarrow> Inl e | Inr _ \<Rightarrow>
      case secure_alloc (size_mul (size_mul (size_of_int n_inds) (size_of_int top_k)) 8) of
        Inl e \<Rightarrow> Inl e | Inr _ \<Rightarrow>
      case secure_alloc (size_mul d 8) of Inl e \<Rightarrow> Inl e | Inr _ \<Rightarrow>
      case secure_alloc (size_mul (size_of_int n_inds) 8) of Inl e \<Rightarrow> Inl e | Inr _ \<Rightarrow>
        let st0 = pca_init n_inds d top_k;
            st1 = for_loop 0 (nat top_k) (pca_component rand_seq ivars n_inds d) st0;
            (sc, y) = for_loop 0 (nat top_k)
              (build_scores ivars (nat n_inds) d (nat top_k) (st_pc_vectors st1))
              (replicate (nat n_inds * nat top_k) 0, st_y st1)
        in Inr \<lparr>num_components = top_k, eigenvalues = st_eigenvalues st1,
                 pc_vectors = st_pc_vectors st1,
                 scores = z_score_pca_scores sc (nat n_inds) (nat top_k)\<rparr>)"

section \<open>Streaming pipeline (analysis.c)\<close>

text \<open>
  A file is its bytes (\<open>None\<close> when it cannot be opened); an open stream adds the read
  position and the end-of-file indicator. \<^verbatim>\<open>fread\<close> overwrites the head of the
  buffer with the bytes it got and leaves the rest of the buffer as it was.
\<close>

record cfile =
  content :: string
  fpos :: nat
  feof :: bool

definition fopen_rb :: "string option \<Rightarrow> cfile option" where
  "fopen_rb file = map_option (\<lambda>s. \<lparr>content = s, fpos = 0, feof = False\<rparr>) file"

definition fread :: "string \<Rightarrow> nat \<Rightarrow> cfile \<Rightarrow> string \<times> nat \<times> cfile" where
  "fread buf n f =
     (let got = take n (drop (fpos f) (content f)); k = length got
      in (got @ drop k buf, k, \<lparr>content = content f, fpos = fpos f + k,
                               feof = (feof f \<or> k < n)\<rparr>))"

definition get_file_length :: "string option \<Rightarrow> nat" where
  "get_file_length file =
     (case file of None \<Rightarrow> 0
      | Some s \<Rightarrow>
          let sz = length s in
          if sz > 0 then (if s ! (sz - 1) = CHR 0x0A then sz - 1 else sz) else sz)"

record gather_state =
  fref :: cfile
  f_ind :: "cfile list"
  ref_chunk :: string
  ind_chunk :: "string list"
  global_offset :: nat
  ivars_out :: "IndividualVariants list"

text \<open>
  The body of the \<^verbatim>\<open>while\<close> loop of \<^verbatim>\<open>gather_variants_sparse\<close>, with whether the
  loop goes on after it. The scorer is called with \<open>nref\<close>, the length of the reference
  read; the length \<open>nind\<close> of an individual's read is compared with it for the warning
  and dropped.
\<close>

definition read_individuals ::
  "nat \<Rightarrow> nat \<Rightarrow> cfile list \<times> string list \<Rightarrow> cfile list \<times> string list" where
  "read_individuals n_inds nref fb =
     for_loop 0 n_inds
       (\<lambda>i (fs, bufs). case fread (bufs ! i) nref (fs ! i) of
            (buf, nind, f) \<Rightarrow> (fs[i := f], bufs[i := buf])) fb"

definition call_individuals ::
  "nat \<Rightarrow> string \<Rightarrow> string list \<Rightarrow> nat \<Rightarrow> nat \<Rightarrow> IndividualVariants list
     \<Rightarrow> IndividualVariants list" where
  "call_individuals n_inds ref_buf bufs nref offset ivs =
     for_loop 0 n_inds
       (\<lambda>i ivs. ivs[i := call_variants_chunk ref_buf (bufs ! i) nref offset (ivs ! i) params])
       ivs"

definition gather_iter :: "nat \<Rightarrow> nat \<Rightarrow> gather_state \<Rightarrow> bool \<times> gather_state" where
  "gather_iter n_inds chunk_size st =
     (case fread (ref_chunk st) chunk_size (fref st) of
        (ref_buf, nref, fr) \<Rightarrow>
          if nref = 0 then (False, st\<lparr>fref := fr, ref_chunk := ref_buf\<rparr>)
          else
            let (fs, bufs) = read_individuals n_inds nref (f_ind st, ind_chunk st);
                ivs = call_individuals n_inds ref_buf bufs nref (global_offset st) (ivars_out st)
            in (\<not> nref < chunk_size,
                \<lparr>fref = fr, f_ind = fs, ref_chunk = ref_buf, ind_chunk = bufs,
                 global_offset = global_offset st + nref, ivars_out = ivs\<rparr>))"

function gather_loop :: "nat \<Rightarrow> nat \<Rightarrow> gather_state \<Rightarrow> gather_state" where
  "gather_loop n_inds chunk_size st =
     (if feof (fref st) then st
      else case gather_iter n_inds chunk_size st of
             (go, st') \<Rightarrow> if go then gather_loop n_inds chunk_size st' else st')"
  by pat_completeness auto
termination
  by (relation "measure (\<lambda>(n_inds, chunk_size, st). length (content (fref st)) - fpos (fref st))")
     (auto simp: gather_iter_def fread_def Let_def split: prod.splits if_splits)

declare gather_loop.simps [simp del]

text \<open>
  \<^verbatim>\<open>gather_variants_sparse\<close>: the files are opened, the buffers allocated (zeroed), the
  loop run; the result is the sparse sets and the number of reference bytes streamed.
  \<open>n_inds\<close> is the length of the array of individuals. The requests for the array of
  buffers and for each individual's buffer repeat the sizes of the two requests kept.
\<close>

definition gather_variants_sparse ::
  "string option \<Rightarrow> string option list \<Rightarrow> nat \<Rightarrow> IndividualVariants list
     \<Rightarrow> failure + (IndividualVariants list \<times> nat)" where
  "gather_variants_sparse ref_file individuals chunk_size ivs =
     (let n_inds = length individuals in
      case fopen_rb ref_file of None \<Rightarrow> Inl OpenFailed | Some fr \<Rightarrow>
      case secure_alloc (size_mul n_inds 8) of Inl e \<Rightarrow> Inl e | Inr _ \<Rightarrow>
      if None \<in> set (map fopen_rb individuals) then Inl OpenFailed
      else
      case secure_alloc chunk_size of Inl e \<Rightarrow> Inl e | Inr _ \<Rightarrow>
        let st = gather_loop n_inds chunk_size
                   \<lparr>fref = fr, f_ind = map (the \<circ> fopen_rb) individuals,
                    ref_chunk = replicate chunk_size (CHR 0x00),
                    ind_chunk = replicate n_inds (replicate chunk_size (CHR 0x00)),
                    global_offset = 0, ivars_out = ivs\<rparr>
        in Inr (ivars_out st, global_offset st))"

text \<open>
  \<^verbatim>\<open>perform_full_analysis\<close> up to its call of the PCA: the sparse sets start empty,
  the chunk size is 1000000, and what the gathering returns (the sets, the streamed
  length) is what \<^verbatim>\<open>partial_pca_sparse\<close> receives as \<open>ivars\<close> and \<open>d\<close>, with
  \<open>top_k = 4\<close>.
\<close>

definition chunk_size_default :: nat where
  "chunk_size_default = 1000000"

definition analysis_gather ::
  "string option \<Rightarrow> string option list \<Rightarrow> failure + (IndividualVariants list \<times> nat)" where
  "analysis_gather ref_file individuals_files =
     (if length individuals_files = 0 then Inl InvalidArgs
      else gather_variants_sparse ref_file individuals_files chunk_size_default
             (replicate (length individuals_files) init_individual_variants))"

definition perform_full_analysis ::
  "(nat \<Rightarrow> nat) \<Rightarrow> string option \<Rightarrow> string option list \<Rightarrow> failure + PartialPCA_Result" where
  "perform_full_analysis rand_seq ref_file individuals_files =
     (case analysis_gather ref_file individuals_files of
        Inl e \<Rightarrow> Inl e
      | Inr (ivs, total_len) \<Rightarrow>
          partial_pca_sparse rand_seq ivs (int (length individuals_files)) total_len 4)"

section \<open>Notions used to state the properties\<close>

definition dot :: "real list \<Rightarrow> real list \<Rightarrow> real" where
  "dot u w = sum_list (map2 (*) u w)"

definition column :: "real list \<Rightarrow> nat \<Rightarrow> nat \<Rightarrow> nat \<Rightarrow> real list" where
  "column m n_inds top_k c = map (\<lambda>i. m ! (i * top_k + c)) [0..<n_inds]"

definition sample_mean :: "real list \<Rightarrow> real" where
  "sample_mean xs = sum_list xs / real (length xs)"

definition sample_variance :: "real list \<Rightarrow> real" where
  "sample_variance xs =
     sum_list (map (\<lambda>x. (x - sample_mean xs) * (x - sample_mean xs)) xs) / real (length xs - 1)"

definition sample_stddev :: "real list \<Rightarrow> real" where
  "sample_stddev xs = sqrt (sample_variance xs)"

definition positions :: "IndividualVariants \<Rightarrow> nat list" where
  "positions iv = map col (entries iv)"

text \<open>
  The condition under which the scoring loop appends at index \<open>i\<close> (a mismatch of two
  standard bases), and the entry it appends.
\<close>

definition valid_base :: "char \<Rightarrow> bool" where
  "valid_base c = (c = CHR ''A'' \<or> c = CHR ''C'' \<or> c = CHR ''G'' \<or> c = CHR ''T'')"

definition emits :: "string \<Rightarrow> string \<Rightarrow> nat \<Rightarrow> bool" where
  "emits r s i = (r ! i \<noteq> s ! i \<and> valid_base (r ! i) \<and> valid_base (s ! i))"

definition emitted ::
  "string \<Rightarrow> string \<Rightarrow> nat \<Rightarrow> nat \<Rightarrow> VariantParams \<Rightarrow> nat \<Rightarrow> VariantEntry" where
  "emitted r s len off p i =
     \<lparr>col = off + i, score = logistic (logistic_scale p) (raw_score r s len i p)\<rparr>"

text \<open>
  The invariant of the gathering loop: the positions of a sparse set are strictly
  ascending and all below the running global offset.
\<close>

definition below :: "nat \<Rightarrow> IndividualVariants \<Rightarrow> bool" where
  "below off iv = (sorted_wrt (<) (positions iv) \<and> (\<forall>c \<in> set (positions iv). c < off))"

definition gather_inv :: "gather_state \<Rightarrow> bool" where
  "gather_inv st = (\<forall>iv \<in> set (ivars_out st). below (global_offset st) iv)"

text \<open>The positions of each individual's sparse set after the gathering phase.\<close>

definition analysis_positions ::
  "string option \<Rightarrow> string option list \<Rightarrow> failure + nat list list" where
  "analysis_positions ref_file individuals_files =
     (case analysis_gather ref_file individuals_files of
        Inl e \<Rightarrow> Inl e
      | Inr (out, d) \<Rightarrow> Inr (map positions out))"

text \<open>
  Two input files for the pipeline: a reference of 1000002 bytes \<open>A\<close> (two chunks), and
  an individual of 1000001 bytes, \<open>A\<close> everywhere but for a \<open>C\<close> at index 1.
\<close>

definition stale_reference :: string where
  "stale_reference = replicate 1000002 (CHR ''A'')"

definition stale_individual :: string where
  "stale_individual = CHR ''A'' # CHR ''C'' # replicate 999999 (CHR ''A'')"

text \<open>The sparse set that a two-chunk run with chunk size 4 produces (see below).\<close>

definition example_variants :: IndividualVariants where
  "example_variants =
     \<lparr>entries =
        [\<lparr>col = 1, score = 1 / (1 + exp (- (6 / 10 * (28 / 100 * (18 / 10) * (1 + 12 / 100 * 1)))))\<rparr>,
         \<lparr>col = 5, score = 1 / (1 + exp (- (6 / 10 * (11 / 10 * (1 + 12 / 100 * 1)))))\<rparr>],
      capacity = 1024\<rparr>"

text \<open>A source of random numbers for examples: \<^verbatim>\<open>rand()\<close> always returns 0.\<close>

definition rand_zero :: "nat \<Rightarrow> nat" where
  "rand_zero k = 0"

text \<open>
  The product of row \<open>iv\<close> of the sparse matrix with a dense vector, and what one pass
  of the normalisation makes of a column, as functions of lists.
\<close>

definition row_dot :: "IndividualVariants \<Rightarrow> real list \<Rightarrow> real" where
  "row_dot iv v = sum_list (map (\<lambda>e. score e * v ! col e) (entries iv))"

definition normalize_column :: "nat \<Rightarrow> real list \<Rightarrow> real list" where
  "normalize_column n xs =
     (let mean = sum_list xs / real n;
          ys = map (\<lambda>x. x - mean) xs;
          variance = (if n > 1 then sum_list (map (\<lambda>y. y * y) ys) / real (n - 1) else 0);
          stddev = (if variance > 0 then sqrt variance else 1)
      in map (\<lambda>y. y / stddev) ys)"

text \<open>A sparse matrix of two rows and three columns for examples.\<close>

definition example_matrix :: "IndividualVariants list" where
  "example_matrix =
     [\<lparr>entries = [\<lparr>col = 0, score = 1 / 2\<rparr>, \<lparr>col = 2, score = 1 / 4\<rparr>], capacity = 1024\<rparr>,
      \<lparr>entries = [\<lparr>col = 1, score = 3 / 4\<rparr>], capacity = 1024\<rparr>]"

section \<open>Loop lemmas\<close>

lemma for_loop_fold: "for_loop i n body s = fold body [i..<n] s"
proof (induction i n body s rule: for_loop.induct)
  case (1 i n body s)
  show ?case
  proof (cases "i < n")
    case True
    then show ?thesis
      using "1" by (subst for_loop.simps) (simp add: upt_conv_Cons)
  next
    case False
    then show ?thesis
      by (subst for_loop.simps) simp
  qed
qed

lemma for_loop_done [simp]: "n \<le> i \<Longrightarrow> for_loop i n body s = s"
  by (subst for_loop.simps) simp

lemma for_loop_step: "i < n \<Longrightarrow> for_loop i n body s = for_loop (Suc i) n body (body i s)"
  by (subst for_loop.simps) simp

lemma for_loop_last: "i \<le> n \<Longrightarrow> for_loop i (Suc n) body s = body n (for_loop i n body s)"
  by (simp add: for_loop_fold)

lemma for_loop_invariant:
  assumes init: "P i s"
    and step: "\<And>j t. i \<le> j \<Longrightarrow> j < n \<Longrightarrow> P j t \<Longrightarrow> P (Suc j) (body j t)"
    and le: "i \<le> n"
  shows "P n (for_loop i n body s)"
proof -
  have "i \<le> m \<Longrightarrow> m \<le> n \<Longrightarrow> P m (for_loop i m body s)" for m
  proof (induction m)
    case 0
    then show ?case using init by simp
  next
    case (Suc m)
    show ?case
    proof (cases "i = Suc m")
      case True
      then show ?thesis using init by simp
    next
      case False
      with Suc.prems have im: "i \<le> m" and mn: "m < n" by simp_all
      then have "P m (for_loop i m body s)" using Suc.IH by simp
      then have "P (Suc m) (body m (for_loop i m body s))" using step im mn by blast
      then show ?thesis using im by (simp add: for_loop_last)
    qed
  qed
  then show ?thesis using le by blast
qed

section \<open>The scoring loop\<close>

lemma logistic_pos: "0 < logistic a x"
  by (simp add: logistic_def add_pos_pos)

lemma chunk_step_entries:
  "entries (chunk_step r s len off p i iv) =
     (if emits r s i then entries iv @ [emitted r s len off p i] else entries iv)"
  by (auto simp: chunk_step_def emits_def valid_base_def emitted_def Let_def logistic_pos add_variant_def)

lemma fold_chunk_step_entries:
  "entries (fold (chunk_step r s len off p) is iv) =
     entries iv @ map (emitted r s len off p) (filter (emits r s) is)"
  by (induction "is" arbitrary: iv) (simp_all add: chunk_step_entries)

lemma call_variants_chunk_entries:
  "entries (call_variants_chunk r s len off iv p) =
     entries iv @ map (emitted r s len off p) (filter (emits r s) [0..<len])"
  by (simp add: call_variants_chunk_def for_loop_fold fold_chunk_step_entries)

lemma fold_count_mismatch:
  "fold (\<lambda>i count. if r ! i = s ! i then count else count + 1) js (c::nat) =
     c + length (filter (\<lambda>i. r ! i \<noteq> s ! i) js)"
  by (induction js arbitrary: c) simp_all

lemma count_context_variants_filter:
  "count_context_variants r s pos len =
     length (filter (\<lambda>i. r ! i \<noteq> s ! i) [context_start pos..<Suc (context_end pos len)])"
  by (simp add: count_context_variants_def for_loop_fold fold_count_mismatch)

lemma context_window: "pos < len \<Longrightarrow> context_start pos \<le> pos \<and> pos \<le> context_end pos len"
  by (auto simp: context_start_def context_end_def)

lemma count_context_ge1:
  assumes "pos < len" and "r ! pos \<noteq> s ! pos"
  shows "1 \<le> count_context_variants r s pos len"
proof -
  have "pos \<in> set (filter (\<lambda>i. r ! i \<noteq> s ! i) [context_start pos..<Suc (context_end pos len)])"
    using assms context_window [of pos len] by (simp del: upt_Suc add: less_Suc_eq_le)
  then have "filter (\<lambda>i. r ! i \<noteq> s ! i) [context_start pos..<Suc (context_end pos len)] \<noteq> []"
    by (metis empty_iff list.set(1))
  then show ?thesis
    by (simp add: count_context_variants_filter Suc_le_eq)
qed

lemma scan_transitions_pos:
  "0 < transition_weight p \<Longrightarrow> 0 < transversion_weight p \<Longrightarrow> 0 < calculate_substitution_score a b p"
  by (simp add: calculate_substitution_score_def)

lemma raw_score_pos:
  assumes "0 < transition_weight p" "0 < transversion_weight p" "0 < cpg_multiplier p"
    "0 < cluster_factor p"
  shows "0 < raw_score r s len i p"
proof -
  have "0 < 1 + cluster_factor p * real (count_context_variants r s i len)"
    using assms(4) by (simp add: add_pos_nonneg)
  then show ?thesis
    using assms scan_transitions_pos [of p "r ! i" "s ! i"]
    by (simp add: raw_score_def Let_def)
qed

lemma logistic_gt_half: "0 < a \<Longrightarrow> 0 < x \<Longrightarrow> 1 / 2 < logistic a x"
proof -
  assume "0 < a" "0 < x"
  then have "exp (- a * x) < 1" by simp
  then have "1 + exp (- a * x) < 2" by simp
  moreover have "0 < 1 + exp (- a * x)" by (simp add: add_pos_pos)
  ultimately show ?thesis
    unfolding logistic_def by (simp add: field_simps)
qed

lemmas scorer_eval = call_variants_chunk_entries init_individual_variants_def emits_def [abs_def]
  valid_base_def emitted_def [abs_def] raw_score_def upt_conv_Cons params_def is_cpg_site_def
  count_context_variants_filter context_start_def context_end_def
  calculate_substitution_score_def transitions_def logistic_def

lemma example_transversion_entries:
  "entries (call_variants_chunk ''ACGTACGTACGT'' ''ACTTACGTACGT'' 12 0
      init_individual_variants params) =
     [\<lparr>col = 2, score = 1 / (1 + exp (- (6 / 10 * (11 / 10 * (18 / 10) * (1 + 12 / 100 * 1)))))\<rparr>]"
  by (simp add: scorer_eval)

section \<open>Properties of the variant scorer\<close>

text \<open>
  C2, as the code has it. In the reference chunk \<open>ACGTACGTACGT\<close> the base at index 2 is
  \<open>G\<close>, preceded by \<open>C\<close>. With the default parameters, the sample that differs from the
  reference at index 2 only, where it has \<open>T\<close>, gives exactly one entry, at position 2;
  its score is the logistic function of \<open>0.6 \<times> (1.1 \<times> 1.8 \<times> (1 + 0.12 \<times> 1))\<close>: the
  transversion weight, the CpG multiplier, and a context count of 1, the mismatch
  itself. A sample identical to the reference gives no entry.
\<close>

theorem scorer_example_amended:
  "entries (call_variants_chunk ''ACGTACGTACGT'' ''ACTTACGTACGT'' 12 0
      init_individual_variants params) =
     [\<lparr>col = 2, score = 1 / (1 + exp (- (6 / 10 * (11 / 10 * (18 / 10) * (1 + 12 / 100 * 1)))))\<rparr>]
   \<and> entries (call_variants_chunk ''ACGTACGTACGT'' ''ACGTACGTACGT'' 12 0
      init_individual_variants params) = []"
  by (simp add: scorer_eval)

text \<open>
  C2 as stated fails: the score of that entry is not the logistic function of
  \<open>0.6 \<times> 0.28\<close>.
\<close>

theorem scorer_example_counterexample:
  "map score (entries (call_variants_chunk ''ACGTACGTACGT'' ''ACTTACGTACGT'' 12 0
      init_individual_variants params)) \<noteq> [1 / (1 + exp (- (6 / 10 * (28 / 100))))]"
  by (simp add: scorer_eval)

text \<open>
  C8: at every index \<open>i\<close> of a chunk where the scoring loop appends an entry, the
  radius-2 context count includes the mismatch at \<open>i\<close> itself and is at least 1; for a
  cluster factor that is not negative, the cluster multiplier of that entry's score,
  \<open>1 + cluster_factor \<times> count\<close>, is at least \<open>1 + cluster_factor\<close>. The entry appended is
  the logistic function of the substitution score (times the CpG multiplier at a CpG
  site) times that multiplier.
\<close>

theorem context_count_includes_self:
  assumes "i < len" and "entries (chunk_step r s len off p i iv) \<noteq> entries iv"
    and "0 \<le> cluster_factor p"
  shows "1 \<le> count_context_variants r s i len \<and>
         1 + cluster_factor p \<le> 1 + cluster_factor p * real (count_context_variants r s i len) \<and>
         entries (chunk_step r s len off p i iv) = entries iv @
           [\<lparr>col = off + i, score = logistic (logistic_scale p)
              ((if is_cpg_site r i len
                then calculate_substitution_score (r ! i) (s ! i) p * cpg_multiplier p
                else calculate_substitution_score (r ! i) (s ! i) p) *
               (1 + cluster_factor p * real (count_context_variants r s i len)))\<rparr>]"
proof -
  from assms(2) have em: "emits r s i"
    by (auto simp: chunk_step_entries split: if_splits)
  then have c1: "1 \<le> count_context_variants r s i len"
    using assms(1) count_context_ge1 [of i len r s] by (simp add: emits_def)
  then have "1 \<le> real (count_context_variants r s i len)" by simp
  then have "cluster_factor p * 1 \<le> cluster_factor p * real (count_context_variants r s i len)"
    using assms(3) by (rule mult_left_mono)
  then show ?thesis
    using c1 em by (simp add: chunk_step_entries emitted_def raw_score_def Let_def)
qed

theorem context_count_includes_self_witness:
  "(2::nat) < 12 \<and>
   entries (chunk_step ''ACGTACGTACGT'' ''ACTTACGTACGT'' 12 0 params 2 init_individual_variants)
     \<noteq> entries init_individual_variants \<and>
   0 \<le> cluster_factor params \<and>
   1 \<le> count_context_variants ''ACGTACGTACGT'' ''ACTTACGTACGT'' 2 12 \<and>
   1 + cluster_factor params \<le> 1 + cluster_factor params *
     real (count_context_variants ''ACGTACGTACGT'' ''ACTTACGTACGT'' 2 12)"
proof -
  have h1: "(2::nat) < 12" by simp
  have h2: "entries (chunk_step ''ACGTACGTACGT'' ''ACTTACGTACGT'' 12 0 params 2
      init_individual_variants) \<noteq> entries init_individual_variants"
    by (simp add: chunk_step_entries emits_def valid_base_def)
  have h3: "0 \<le> cluster_factor params" by (simp add: params_def)
  show ?thesis
    using h1 h2 h3 context_count_includes_self [OF h1 h2 h3] by blast
qed

text \<open>
  C9: when the five scoring parameters are strictly positive, every entry that a call of
  the scorer appends has a score strictly greater than \<open>1/2\<close> (exact real arithmetic).
\<close>

theorem emitted_score_above_half:
  assumes "0 < transition_weight p" "0 < transversion_weight p" "0 < cpg_multiplier p"
    "0 < cluster_factor p" "0 < logistic_scale p"
    and "e \<in> set (drop (num_entries iv) (entries (call_variants_chunk r s len off iv p)))"
  shows "1 / 2 < score e"
proof -
  from assms(6) obtain i where "e = emitted r s len off p i"
    by (auto simp: call_variants_chunk_entries num_entries_def)
  then show ?thesis
    using logistic_gt_half [OF assms(5) raw_score_pos [OF assms(1-4)]]
    by (simp add: emitted_def)
qed

theorem emitted_score_above_half_witness:
  "0 < transition_weight params \<and> 0 < transversion_weight params \<and>
   0 < cpg_multiplier params \<and> 0 < cluster_factor params \<and> 0 < logistic_scale params \<and>
   \<lparr>col = 2, score = 1 / (1 + exp (- (6 / 10 * (11 / 10 * (18 / 10) * (1 + 12 / 100 * 1)))))\<rparr>
     \<in> set (drop (num_entries init_individual_variants)
         (entries (call_variants_chunk ''ACGTACGTACGT'' ''ACTTACGTACGT'' 12 0
            init_individual_variants params))) \<and>
   1 / 2 < score \<lparr>col = 2,
     score = 1 / (1 + exp (- (6 / 10 * (11 / 10 * (18 / 10) * (1 + 12 / 100 * 1)))))\<rparr>"
proof -
  have p1: "0 < transition_weight params" and p2: "0 < transversion_weight params"
    and p3: "0 < cpg_multiplier params" and p4: "0 < cluster_factor params"
    and p5: "0 < logistic_scale params"
    by (simp_all add: params_def)
  have mem: "\<lparr>col = 2,
      score = 1 / (1 + exp (- (6 / 10 * (11 / 10 * (18 / 10) * (1 + 12 / 100 * 1)))))\<rparr>
     \<in> set (drop (num_entries init_individual_variants)
         (entries (call_variants_chunk ''ACGTACGTACGT'' ''ACTTACGTACGT'' 12 0
            init_individual_variants params)))"
    unfolding example_transversion_entries
    by (simp add: num_entries_def init_individual_variants_def)
  show ?thesis
    using p1 p2 p3 p4 p5 mem emitted_score_above_half [OF p1 p2 p3 p4 p5 mem] by blast
qed

section \<open>The gathering loop\<close>

lemma positions_call_variants_chunk:
  "positions (call_variants_chunk r s len off iv p) =
     positions iv @ map ((+) off) (filter (emits r s) [0..<len])"
  by (simp add: positions_def call_variants_chunk_entries emitted_def comp_def)

lemma below_call_variants_chunk:
  assumes "below off iv"
  shows "below (off + len) (call_variants_chunk r s len off iv p)"
proof -
  have "sorted_wrt (<) (filter (emits r s) [0..<len])"
    by (rule sorted_wrt_filter) simp
  then have "sorted_wrt (<) (map ((+) off) (filter (emits r s) [0..<len]))"
    by (simp add: sorted_wrt_map)
  then show ?thesis
    using assms
    by (auto simp: below_def positions_call_variants_chunk sorted_wrt_append)
qed

lemma for_loop_update:
  "length (for_loop 0 n (\<lambda>i xs. xs[i := g i (xs ! i)]) xs) = length xs \<and>
   (\<forall>j < length xs. for_loop 0 n (\<lambda>i xs. xs[i := g i (xs ! i)]) xs ! j =
      (if j < n then g j (xs ! j) else xs ! j))"
  by (rule for_loop_invariant
      [where P = "\<lambda>m ys. length ys = length xs \<and>
         (\<forall>j < length xs. ys ! j = (if j < m then g j (xs ! j) else xs ! j))"])
     (auto simp: nth_list_update less_Suc_eq)

lemma call_individuals_nth:
  "length (call_individuals n rb bufs nref off ivs) = length ivs"
  "j < length ivs \<Longrightarrow> call_individuals n rb bufs nref off ivs ! j =
     (if j < n then call_variants_chunk rb (bufs ! j) nref off (ivs ! j) params else ivs ! j)"
  unfolding call_individuals_def
  using for_loop_update [of n "\<lambda>i iv. call_variants_chunk rb (bufs ! i) nref off iv params" ivs]
  by simp_all

lemma below_mono: "below off iv \<Longrightarrow> off \<le> off' \<Longrightarrow> below off' iv"
  by (auto simp: below_def)

lemma call_individuals_below:
  assumes "\<forall>iv \<in> set ivs. below off iv"
  shows "\<forall>iv \<in> set (call_individuals n rb bufs nref off ivs). below (off + nref) iv"
proof
  fix iv assume "iv \<in> set (call_individuals n rb bufs nref off ivs)"
  then obtain j where j: "j < length ivs" and iv: "iv = call_individuals n rb bufs nref off ivs ! j"
    by (auto simp: in_set_conv_nth call_individuals_nth(1))
  have b: "below off (ivs ! j)" using assms j by simp
  show "below (off + nref) iv"
    using b j iv below_call_variants_chunk [OF b, of nref rb "bufs ! j" params]
      below_mono [OF b, of "off + nref"]
    by (simp add: call_individuals_nth(2))
qed

lemma gather_iter_inv:
  assumes "gather_inv st" and "gather_iter n cs st = (go, st')"
  shows "gather_inv st'"
  using assms call_individuals_below [of "ivars_out st" "global_offset st"]
  by (auto simp: gather_inv_def gather_iter_def Let_def split: prod.splits if_splits)

lemma gather_loop_inv: "gather_inv st \<Longrightarrow> gather_inv (gather_loop n cs st)"
proof (induction n cs st rule: gather_loop.induct)
  case (1 n cs st)
  show ?case
  proof (cases "feof (fref st)")
    case True
    then show ?thesis using "1.prems" by (subst gather_loop.simps) simp
  next
    case False
    obtain go st' where it: "gather_iter n cs st = (go, st')" by (cases "gather_iter n cs st")
    have inv': "gather_inv st'" using gather_iter_inv [OF "1.prems" it] .
    show ?thesis
    proof (cases go)
      case True
      then show ?thesis
        using "1.IH" [OF False it [symmetric] True inv'] False it
        by (subst gather_loop.simps) simp
    next
      case False
      then show ?thesis
        using inv' \<open>\<not> feof (fref st)\<close> it by (subst gather_loop.simps) simp
    qed
  qed
qed

lemmas pipeline_eval = gather_variants_sparse_def fopen_rb_def secure_alloc_def size_mul_def
  gather_loop.simps gather_iter_def fread_def read_individuals_def call_individuals_def
  for_loop.simps Let_def

lemma example_run:
  "gather_variants_sparse (Some ''ACGTAC'') [Some ''ATGTAA''] 4 [init_individual_variants] =
     Inr ([example_variants], 6)"
  apply (simp add: pipeline_eval)
  apply (simp add: call_variants_chunk_def for_loop.simps chunk_step_def add_variant_def
      num_entries_def Let_def init_individual_variants_def raw_score_def params_def
      is_cpg_site_def count_context_variants_def context_start_def context_end_def
      calculate_substitution_score_def transitions_def logistic_def add_pos_pos
      example_variants_def)
  done

lemma filter_upt_single: "k < n \<Longrightarrow> filter (\<lambda>i. i = k) [0..<n] = [k]"
proof (induction n)
  case 0
  then show ?case by simp
next
  case (Suc n)
  show ?case
  proof (cases "k = n")
    case True
    then have "filter (\<lambda>i. i = k) [0..<n] = []"
      by (simp add: filter_empty_conv)
    with True show ?thesis by simp
  next
    case False
    with Suc show ?thesis by simp
  qed
qed

lemma first_chunk_emits:
  "filter (emits (replicate 1000000 (CHR ''A'')) (CHR ''A'' # CHR ''C'' # replicate 999998 (CHR ''A'')))
     [0..<1000000] = [1]"
proof -
  have "filter (emits (replicate 1000000 (CHR ''A''))
      (CHR ''A'' # CHR ''C'' # replicate 999998 (CHR ''A''))) [0..<1000000] =
    filter (\<lambda>i. i = 1) [0..<1000000]"
    by (rule filter_cong) (auto simp: emits_def valid_base_def nth_Cons')
  also have "\<dots> = [1]"
    by (rule filter_upt_single) simp
  finally show ?thesis .
qed

lemma second_chunk_emits:
  "filter (emits (replicate 2 (CHR ''A'') @ replicate 999998 (CHR ''A''))
      (CHR ''A'' # CHR ''C'' # replicate 999998 (CHR ''A''))) [0..<2] = [1]"
  by (simp add: upt_conv_Cons emits_def valid_base_def nth_append)

lemma stale_run:
  "analysis_gather (Some stale_reference) [Some stale_individual] =
     Inr ([call_variants_chunk (replicate 2 (CHR ''A'') @ replicate 999998 (CHR ''A''))
             (CHR ''A'' # CHR ''C'' # replicate 999998 (CHR ''A'')) 2 1000000
             (call_variants_chunk (replicate 1000000 (CHR ''A''))
                (CHR ''A'' # CHR ''C'' # replicate 999998 (CHR ''A'')) 1000000 0
                init_individual_variants params) params], 1000002)"
  by (simp add: analysis_gather_def chunk_size_default_def stale_reference_def
      stale_individual_def pipeline_eval)

section \<open>Properties of the streaming pipeline\<close>

text \<open>
  C6: the gathering phase starts from empty sparse sets, feeds the chunks in increasing
  genome order and advances the global offset by the length of each reference chunk.
  Whenever it returns, the positions stored in every individual's sparse set are in
  strictly ascending order; in particular no position occurs twice.
\<close>

theorem positions_strictly_ascending:
  assumes "gather_variants_sparse ref_file individuals cs ivs = Inr (out, d)"
    and "\<forall>iv \<in> set ivs. entries iv = []"
    and "iv \<in> set out"
  shows "sorted_wrt (<) (positions iv) \<and> distinct (positions iv)"
proof -
  from assms(1) obtain st0 where
    out: "out = ivars_out (gather_loop (length individuals) cs st0)"
    and st0: "ivars_out st0 = ivs"
    by (auto simp: gather_variants_sparse_def Let_def split: option.splits sum.splits if_splits)
  have "gather_inv st0"
    using assms(2) st0 by (simp add: gather_inv_def below_def positions_def)
  then have "gather_inv (gather_loop (length individuals) cs st0)"
    by (rule gather_loop_inv)
  then have "below (global_offset (gather_loop (length individuals) cs st0)) iv"
    using assms(3) out by (simp add: gather_inv_def)
  then have "sorted_wrt (<) (positions iv)" by (simp add: below_def)
  then show ?thesis
    by (simp add: strict_sorted_iff)
qed

theorem positions_strictly_ascending_witness:
  "gather_variants_sparse (Some ''ACGTAC'') [Some ''ATGTAA''] 4 [init_individual_variants] =
     Inr ([example_variants], 6) \<and>
   entries init_individual_variants = [] \<and>
   positions example_variants = [1, 5] \<and>
   sorted_wrt (<) (positions example_variants) \<and> distinct (positions example_variants)"
proof -
  have h2: "\<forall>iv \<in> set [init_individual_variants]. entries iv = []"
    by (simp add: init_individual_variants_def)
  have h3: "example_variants \<in> set [example_variants]" by simp
  have "positions example_variants = [1, 5]"
    by (simp add: positions_def example_variants_def)
  then show ?thesis
    using example_run h2 positions_strictly_ascending [OF example_run h2 h3]
    by simp
qed

text \<open>
  C1, on the code: the scorer is called with the length of the reference read, whatever
  the individual's read returned. For the reference \<open>stale_reference\<close> and the
  individual \<open>stale_individual\<close> (1000001 bytes), the second chunk reads 2 reference
  bytes and 1 byte of the individual, and the run stores an entry at position 1000001,
  where the individual's file has no byte: the byte compared there was left in the
  buffer by the first chunk.
\<close>

theorem stale_bytes_are_scored:
  "analysis_positions (Some stale_reference) [Some stale_individual] = Inr [[1, 1000001]]
   \<and> length stale_individual = 1000001"
  unfolding analysis_positions_def stale_run
  by (simp add: positions_call_variants_chunk first_chunk_emits second_chunk_emits
      stale_individual_def)
     (simp add: positions_def init_individual_variants_def)

text \<open>
  C7, on the code: the length handed to the PCA is the number of reference bytes
  streamed, trailing newline included. For a five-byte reference \<open>ACGT\<close> plus newline
  it is 5, where \<^verbatim>\<open>get_file_length\<close>, which nothing calls, answers 4.
\<close>

theorem streamed_length_counts_newline:
  "analysis_gather (Some (''ACGT'' @ [CHR 0x0A])) [Some (''ACGT'' @ [CHR 0x0A])] =
     Inr ([init_individual_variants], 5) \<and>
   get_file_length (Some (''ACGT'' @ [CHR 0x0A])) = 4"
  apply (simp add: analysis_gather_def chunk_size_default_def get_file_length_def pipeline_eval)
  apply (simp add: call_variants_chunk_def for_loop.simps chunk_step_def nth_append)
  done

section \<open>Allocation and the component loop\<close>

lemma size_of_int_nat: "0 \<le> x \<Longrightarrow> x < 2 ^ 64 \<Longrightarrow> size_of_int x = nat x"
  by (simp add: size_of_int_def)

lemma size_mul_small: "a * b < 2 ^ 64 \<Longrightarrow> size_mul a b = a * b"
  by (simp add: size_mul_def)

lemma partial_pca_sparse_zero: "partial_pca_sparse rs ivars n_inds d 0 = Inl ZeroSizeRequest"
  by (simp add: partial_pca_sparse_def secure_alloc_def size_mul_def size_of_int_def)

lemma size_of_int_pos:
  assumes "1 \<le> x" and "nat x < 2 ^ 64"
  shows "size_of_int x = nat x"
proof -
  have "x < 2 ^ 64" using assms by (simp add: nat_less_iff)
  then show ?thesis using assms(1) by (simp add: size_of_int_nat)
qed

lemma product_bound:
  fixes a b m :: nat
  assumes "1 \<le> a" "1 \<le> b" "a * b * 8 < m"
  shows "a * 8 < m" and "b * 8 < m" and "a * b < m"
proof -
  have "a \<le> a * b" and "b \<le> a * b" using assms(1,2) by simp_all
  then have "a * 8 \<le> a * b * 8" and "b * 8 \<le> a * b * 8" and "a * b \<le> a * b * 8"
    by simp_all
  then show "a * 8 < m" and "b * 8 < m" and "a * b < m"
    using assms(3) by linarith+
qed

lemma alloc_sizes:
  assumes "1 \<le> top_k" "1 \<le> n_inds" "1 \<le> d"
    and "nat top_k * d * 8 < 2 ^ 64" and "nat n_inds * nat top_k * 8 < 2 ^ 64"
  shows "size_mul (size_of_int top_k) 8 \<noteq> 0"
    and "size_mul (size_mul (size_of_int top_k) d) 8 \<noteq> 0"
    and "size_mul (size_mul (size_of_int n_inds) (size_of_int top_k)) 8 \<noteq> 0"
    and "size_mul d 8 \<noteq> 0"
    and "size_mul (size_of_int n_inds) 8 \<noteq> 0"
proof -
  have k1: "1 \<le> nat top_k" and n1: "1 \<le> nat n_inds" using assms(1,2) by simp_all
  note kd = product_bound [OF k1 assms(3,4)]
  note nk = product_bound [OF n1 k1 assms(5)]
  have ek: "size_of_int top_k = nat top_k"
    using kd(1) assms(1) by (simp add: size_of_int_pos)
  have en: "size_of_int n_inds = nat n_inds"
    using nk(1) assms(2) by (simp add: size_of_int_pos)
  show "size_mul (size_of_int top_k) 8 \<noteq> 0"
    using kd(1) k1 by (simp add: ek size_mul_small)
  show "size_mul (size_mul (size_of_int top_k) d) 8 \<noteq> 0"
    using assms(3,4) k1 kd(3) by (simp add: ek size_mul_small)
  show "size_mul (size_mul (size_of_int n_inds) (size_of_int top_k)) 8 \<noteq> 0"
    using assms(1,2,5) nk(3) by (simp add: ek en size_mul_small)
  show "size_mul d 8 \<noteq> 0"
    using kd(2) assms(3) by (simp add: size_mul_small)
  show "size_mul (size_of_int n_inds) 8 \<noteq> 0"
    using nk(1) n1 by (simp add: en size_mul_small)
qed

lemma partial_pca_sparse_ok:
  assumes "1 \<le> top_k" "1 \<le> n_inds" "1 \<le> d"
    and "nat top_k * d * 8 < 2 ^ 64" and "nat n_inds * nat top_k * 8 < 2 ^ 64"
  shows "\<exists>r. partial_pca_sparse rs ivars n_inds d top_k = Inr r \<and> num_components r = top_k \<and>
    eigenvalues r =
      st_eigenvalues (for_loop 0 (nat top_k) (pca_component rs ivars n_inds d)
        (pca_init n_inds d top_k))"
  using alloc_sizes [OF assms]
  by (simp add: partial_pca_sparse_def secure_alloc_def pca_init_def split_beta Let_def)

lemma pca_component_eigenvalues:
  "\<exists>y. st_eigenvalues (pca_component rs ivars n_inds d c st) =
     (st_eigenvalues st)[c := eigenvalue_estimate y n_inds]"
  by (simp add: pca_component_def split_beta Let_def) blast

lemma eigenvalue_estimate_None: "eigenvalue_estimate y n_inds = None \<longleftrightarrow> n_inds = 1"
  by (simp add: eigenvalue_estimate_def double_div_def Let_def)

lemma component_loop_eigenvalues:
  "length (st_eigenvalues (for_loop 0 k (pca_component rs ivars n_inds d) st)) =
     length (st_eigenvalues st) \<and>
   (\<forall>c < k. c < length (st_eigenvalues st) \<longrightarrow>
      (\<exists>y. st_eigenvalues (for_loop 0 k (pca_component rs ivars n_inds d) st) ! c =
         eigenvalue_estimate y n_inds))"
proof (rule for_loop_invariant
    [where P = "\<lambda>m t. length (st_eigenvalues t) = length (st_eigenvalues st) \<and>
      (\<forall>c < m. c < length (st_eigenvalues st) \<longrightarrow>
        (\<exists>y. st_eigenvalues t ! c = eigenvalue_estimate y n_inds))"])
  show "length (st_eigenvalues st) = length (st_eigenvalues st) \<and>
    (\<forall>c<0. c < length (st_eigenvalues st) \<longrightarrow>
      (\<exists>y. st_eigenvalues st ! c = eigenvalue_estimate y n_inds))"
    by simp
next
  fix j and t :: pca_state
  assume inv: "length (st_eigenvalues t) = length (st_eigenvalues st) \<and>
    (\<forall>c<j. c < length (st_eigenvalues st) \<longrightarrow>
      (\<exists>y. st_eigenvalues t ! c = eigenvalue_estimate y n_inds))"
  obtain y where y: "st_eigenvalues (pca_component rs ivars n_inds d j t) =
     (st_eigenvalues t)[j := eigenvalue_estimate y n_inds]"
    using pca_component_eigenvalues by blast
  show "length (st_eigenvalues (pca_component rs ivars n_inds d j t)) =
      length (st_eigenvalues st) \<and>
    (\<forall>c<Suc j. c < length (st_eigenvalues st) \<longrightarrow>
      (\<exists>y. st_eigenvalues (pca_component rs ivars n_inds d j t) ! c =
         eigenvalue_estimate y n_inds))"
    using inv by (auto simp: y nth_list_update less_Suc_eq)
qed simp

section \<open>Properties of the partial PCA\<close>

text \<open>
  C3, as the code has it. A call with \<open>top_k = 0\<close> is rejected before any power
  iteration: its first allocation asks for zero bytes, which \<^verbatim>\<open>secure_alloc\<close> answers
  by terminating the process. Nothing compares \<open>top_k\<close> with \<open>d\<close>: every call with
  \<open>top_k \<ge> 1\<close>, \<open>n_inds \<ge> 1\<close> and \<open>d \<ge> 1\<close> whose buffer sizes fit in a \<^verbatim>\<open>size_t\<close>
  runs the iteration and returns a result with \<open>top_k\<close> components, also when
  \<open>top_k > d\<close>.
\<close>

theorem top_k_precondition_amended:
  "partial_pca_sparse rs ivars n_inds d 0 = Inl ZeroSizeRequest \<and>
   (1 \<le> top_k \<and> 1 \<le> n_inds \<and> 1 \<le> d \<and> nat top_k * d * 8 < 2 ^ 64 \<and>
    nat n_inds * nat top_k * 8 < 2 ^ 64 \<longrightarrow>
     (\<exists>r. partial_pca_sparse rs ivars n_inds d top_k = Inr r \<and> num_components r = top_k))"
  using partial_pca_sparse_ok [of top_k n_inds d rs ivars]
  by (auto simp: partial_pca_sparse_zero)

theorem top_k_precondition_amended_witness:
  "partial_pca_sparse rand_zero [init_individual_variants, init_individual_variants] 2 1 0 =
     Inl ZeroSizeRequest \<and>
   (1::int) \<le> 2 \<and> (1::nat) \<le> 1 \<and> nat 2 * 1 * 8 < (2::nat) ^ 64 \<and>
   nat 2 * nat 2 * 8 < (2::nat) ^ 64 \<and>
   (\<exists>r. partial_pca_sparse rand_zero [init_individual_variants, init_individual_variants] 2 1 2
          = Inr r \<and> num_components r = 2)"
  using top_k_precondition_amended
    [of rand_zero "[init_individual_variants, init_individual_variants]" 2 1 2]
  by simp

text \<open>
  C3 as stated fails: with \<open>d = 1\<close> and \<open>top_k = 2 > d\<close> (two individuals), the call is
  not rejected.
\<close>

theorem top_k_above_d_counterexample:
  "\<not> isl (partial_pca_sparse rand_zero
      [init_individual_variants, init_individual_variants] 2 1 2)"
  using partial_pca_sparse_ok [of 2 2 1 rand_zero
      "[init_individual_variants, init_individual_variants]"]
  by auto

text \<open>
  C10: the eigenvalue estimate divides by \<open>n_inds - 1\<close> without a guard. For every call
  that passes the allocations, with \<open>n_inds \<ge> 2\<close> the divisor is nonzero and every
  eigenvalue is a real number; with \<open>n_inds = 1\<close> the call reaches the division by zero
  for every component (no eigenvalue is a real number).
\<close>

theorem eigenvalue_divisor:
  assumes "1 \<le> top_k" "1 \<le> n_inds" "1 \<le> d"
    and "nat top_k * d * 8 < 2 ^ 64" and "nat n_inds * nat top_k * 8 < 2 ^ 64"
  shows "(2 \<le> n_inds \<longrightarrow> real_of_int (n_inds - 1) \<noteq> 0) \<and>
    (\<exists>r. partial_pca_sparse rs ivars n_inds d top_k = Inr r \<and>
       length (eigenvalues r) = nat top_k \<and>
       (\<forall>c < nat top_k. (eigenvalues r ! c = None) = (n_inds = 1)))"
proof -
  obtain r where r: "partial_pca_sparse rs ivars n_inds d top_k = Inr r"
    and ev: "eigenvalues r =
      st_eigenvalues (for_loop 0 (nat top_k) (pca_component rs ivars n_inds d)
        (pca_init n_inds d top_k))"
    using partial_pca_sparse_ok [OF assms] by blast
  have len0: "length (st_eigenvalues (pca_init n_inds d top_k)) = nat top_k"
    by (simp add: pca_init_def)
  have "length (eigenvalues r) = nat top_k \<and>
       (\<forall>c < nat top_k. \<exists>y. eigenvalues r ! c = eigenvalue_estimate y n_inds)"
    using component_loop_eigenvalues [of "nat top_k" rs ivars n_inds d "pca_init n_inds d top_k"]
    by (simp add: ev len0)
  then have "length (eigenvalues r) = nat top_k \<and>
       (\<forall>c < nat top_k. (eigenvalues r ! c = None) = (n_inds = 1))"
    by (metis eigenvalue_estimate_None)
  then show ?thesis using r by auto
qed

theorem eigenvalue_divisor_witness:
  "(1::int) \<le> 1 \<and> (1::nat) \<le> 1 \<and> nat 1 * 1 * 8 < (2::nat) ^ 64 \<and>
   nat 1 * nat 1 * 8 < (2::nat) ^ 64 \<and>
   (\<exists>r. partial_pca_sparse rand_zero [init_individual_variants] 1 1 1 = Inr r \<and>
        eigenvalues r = [None]) \<and>
   nat 2 * nat 1 * 8 < (2::nat) ^ 64 \<and>
   (\<exists>r q. partial_pca_sparse rand_zero [init_individual_variants, init_individual_variants]
            2 1 1 = Inr r \<and> eigenvalues r = [Some q])"
proof -
  have a: "(1::int) \<le> 1" and b: "(1::nat) \<le> 1" and c: "nat 1 * 1 * 8 < (2::nat) ^ 64"
    and d: "nat 1 * nat 1 * 8 < (2::nat) ^ 64" and a2: "(1::int) \<le> 2"
    and d2: "nat 2 * nat 1 * 8 < (2::nat) ^ 64"
    by simp_all
  have single: "length xs = nat 1 \<and> (\<forall>c < nat 1. (xs ! c = None) = P) \<Longrightarrow>
      (P \<longrightarrow> xs = [None]) \<and> (\<not> P \<longrightarrow> (\<exists>q. xs = [Some q]))"
    for xs :: "real option list" and P
    by (cases xs) auto
  obtain r1 where r1: "partial_pca_sparse rand_zero [init_individual_variants] 1 1 1 = Inr r1"
    and e1: "length (eigenvalues r1) = nat 1 \<and>
      (\<forall>c < nat 1. (eigenvalues r1 ! c = None) = ((1::int) = 1))"
    using eigenvalue_divisor [OF a a b c d, of rand_zero "[init_individual_variants]"]
    by blast
  obtain r2 where r2: "partial_pca_sparse rand_zero
        [init_individual_variants, init_individual_variants] 2 1 1 = Inr r2"
    and e2: "length (eigenvalues r2) = nat 1 \<and>
      (\<forall>c < nat 1. (eigenvalues r2 ! c = None) = ((2::int) = 1))"
    using eigenvalue_divisor [OF a a2 b c d2, of rand_zero
        "[init_individual_variants, init_individual_variants]"]
    by blast
  have "eigenvalues r1 = [None]" using single [OF e1] by simp
  moreover have "\<exists>q. eigenvalues r2 = [Some q]" using single [OF e2] by simp
  ultimately show ?thesis using r1 r2 by auto
qed

section \<open>The sparse products\<close>

lemma fold_add_at:
  "i < length y \<Longrightarrow>
   fold (\<lambda>e y. y[i := y ! i + g e]) js y = y[i := y ! i + sum_list (map g js)]"
  for y :: "real list"
  by (induction js arbitrary: y) (simp_all add: add.assoc)

lemma map_nth_fun: "map (\<lambda>i. f (xs ! i)) [0..<length xs] = map f xs"
proof -
  have "map (\<lambda>i. f (xs ! i)) [0..<length xs] = map f (map ((!) xs) [0..<length xs])"
    by simp
  then show ?thesis by (simp only: map_nth)
qed

lemma row_loop_X:
  assumes "i < length y"
  shows "for_loop 0 (num_entries indv)
           (\<lambda>e y. let c = col (entries indv ! e); sc = score (entries indv ! e)
                  in y[i := y ! i + sc * v ! c]) y =
         y[i := y ! i + row_dot indv v]"
proof -
  have "sum_list (map (\<lambda>e. score (entries indv ! e) * v ! col (entries indv ! e))
          [0..<length (entries indv)]) = row_dot indv v"
    unfolding row_dot_def
    using map_nth_fun [of "\<lambda>e. score e * v ! col e" "entries indv"] by simp
  then show ?thesis
    using fold_add_at [OF assms,
        of "\<lambda>e. score (entries indv ! e) * v ! col (entries indv ! e)"
           "[0..<length (entries indv)]"]
    by (simp add: for_loop_fold num_entries_def Let_def)
qed

lemma zero_loop:
  "length (for_loop 0 n (\<lambda>i y. y[i := 0]) y) = length y \<and>
   (\<forall>j < length y. for_loop 0 n (\<lambda>i y. y[i := 0]) y ! j = (if j < n then 0 else y ! j))"
  for y :: "real list"
  by (rule for_loop_invariant
      [where P = "\<lambda>m t. length t = length y \<and>
         (\<forall>j < length y. t ! j = (if j < m then 0 else y ! j))"])
     (auto simp: nth_list_update less_Suc_eq)

lemma multiply_X_vec_rows:
  assumes "length y = n"
  shows "multiply_X_vec ivars n v y = map (\<lambda>i. row_dot (ivars ! i) v) [0..<n]"
proof -
  let ?y0 = "for_loop 0 n (\<lambda>i y. y[i := 0]) y"
  let ?body = "\<lambda>i y. let indv = ivars ! i in
              for_loop 0 (num_entries indv)
                (\<lambda>e y. let c = col (entries indv ! e); sc = score (entries indv ! e)
                       in y[i := y ! i + sc * v ! c]) y"
  have y0: "length ?y0 = n \<and> (\<forall>j < n. ?y0 ! j = 0)"
    using zero_loop [of n y] assms by simp
  have "length (for_loop 0 n ?body ?y0) = n \<and>
     (\<forall>j < n. for_loop 0 n ?body ?y0 ! j = (if j < n then row_dot (ivars ! j) v else 0))"
  proof (rule for_loop_invariant
      [where P = "\<lambda>m t. length t = n \<and>
         (\<forall>j < n. t ! j = (if j < m then row_dot (ivars ! j) v else 0))"])
    show "length ?y0 = n \<and> (\<forall>j<n. ?y0 ! j = (if j < 0 then row_dot (ivars ! j) v else 0))"
      using y0 by simp
  next
    fix j and t :: "real list"
    assume j: "j < n" and inv: "length t = n \<and>
      (\<forall>ja<n. t ! ja = (if ja < j then row_dot (ivars ! ja) v else 0))"
    have "?body j t = t[j := t ! j + row_dot (ivars ! j) v]"
      using row_loop_X [of j t "ivars ! j" v] j inv by (simp add: Let_def)
    then show "length (?body j t) = n \<and>
      (\<forall>ja<n. ?body j t ! ja = (if ja < Suc j then row_dot (ivars ! ja) v else 0))"
      using inv j by (auto simp: nth_list_update less_Suc_eq)
  qed simp
  then show ?thesis
    unfolding multiply_X_vec_def Let_def
    by (intro nth_equalityI) simp_all
qed

lemma dot_sum: "length u = length w \<Longrightarrow> dot u w = (\<Sum>i<length u. u ! i * w ! i)"
proof -
  assume len: "length u = length w"
  have "dot u w = (\<Sum>i = 0..<length (map2 (*) u w). map2 (*) u w ! i)"
    unfolding dot_def by (rule sum_list_sum_nth)
  also have "\<dots> = (\<Sum>i<length u. u ! i * w ! i)"
    using len by (intro sum.cong) (auto simp: atLeast0LessThan)
  finally show ?thesis .
qed

lemma dot_update:
  assumes "c < length z" and "length v = length z"
  shows "dot v (z[c := z ! c + a]) = dot v z + v ! c * a"
proof -
  have "dot v (z[c := z ! c + a]) = (\<Sum>i<length z. v ! i * (z[c := z ! c + a]) ! i)"
    using assms(2) by (simp add: dot_sum)
  also have "\<dots> = (\<Sum>i<length z. v ! i * z ! i + (if i = c then v ! c * a else 0))"
    by (intro sum.cong) (auto simp: nth_list_update distrib_left)
  also have "\<dots> = (\<Sum>i<length z. v ! i * z ! i) + v ! c * a"
    using assms(1) by (simp add: sum.distrib)
  finally show ?thesis using assms(2) by (simp add: dot_sum)
qed

lemma fold_Xt_row:
  assumes "length v = length z" and "\<forall>e \<in> set js. cl e < length z"
  shows "length (fold (\<lambda>e z. z[cl e := z ! cl e + g e]) js z) = length z \<and>
    dot v (fold (\<lambda>e z. z[cl e := z ! cl e + g e]) js z) =
      dot v z + sum_list (map (\<lambda>e. v ! cl e * g e) js)"
  using assms
proof (induction js arbitrary: z)
  case Nil
  then show ?case by simp
next
  case (Cons j js)
  have "length v = length (z[cl j := z ! cl j + g j])"
    and "\<forall>e \<in> set js. cl e < length (z[cl j := z ! cl j + g j])"
    using Cons.prems by simp_all
  from Cons.IH [OF this] show ?case
    using Cons.prems by (simp add: dot_update add.assoc)
qed

lemma row_loop_Xt:
  assumes "length v = length z" and "\<forall>e \<in> set (entries indv). col e < length z"
  shows "length (for_loop 0 (num_entries indv)
           (\<lambda>e z. let c = col (entries indv ! e); sc = score (entries indv ! e)
                  in z[c := z ! c + sc * y_i]) z) = length z \<and>
         dot v (for_loop 0 (num_entries indv)
           (\<lambda>e z. let c = col (entries indv ! e); sc = score (entries indv ! e)
                  in z[c := z ! c + sc * y_i]) z) = dot v z + y_i * row_dot indv v"
proof -
  have cols: "\<forall>e \<in> set [0..<length (entries indv)]. col (entries indv ! e) < length z"
    using assms(2) by simp
  have "sum_list (map (\<lambda>e. v ! col (entries indv ! e) * (score (entries indv ! e) * y_i))
          [0..<length (entries indv)]) =
        sum_list (map (\<lambda>e. v ! col e * (score e * y_i)) (entries indv))"
    using map_nth_fun [of "\<lambda>e. v ! col e * (score e * y_i)" "entries indv"] by simp
  also have "\<dots> = y_i * row_dot indv v"
    unfolding row_dot_def
    by (simp add: sum_list_const_mult [symmetric] mult_ac)
  finally show ?thesis
    using fold_Xt_row [OF assms(1) cols, of "\<lambda>e. score (entries indv ! e) * y_i"]
    by (simp add: for_loop_fold num_entries_def Let_def)
qed

lemma dot_zero: "length v = d \<Longrightarrow> dot v (replicate d 0) = 0"
  by (simp add: dot_sum)

lemma multiply_Xt_vec_dot:
  assumes "length v = d" and "length z = d"
    and "\<forall>i < n. \<forall>e \<in> set (entries (ivars ! i)). col e < d"
  shows "dot v (multiply_Xt_vec ivars n d y z) = (\<Sum>i<n. y ! i * row_dot (ivars ! i) v)"
proof -
  let ?body = "\<lambda>i z. let y_i = y ! i; indv = ivars ! i in
              for_loop 0 (num_entries indv)
                (\<lambda>e z. let c = col (entries indv ! e); sc = score (entries indv ! e)
                       in z[c := z ! c + sc * y_i]) z"
  have z0: "replicate d 0 @ drop d z = replicate d 0"
    using assms(2) by simp
  have "length (for_loop 0 n ?body (replicate d 0)) = d \<and>
    dot v (for_loop 0 n ?body (replicate d 0)) = (\<Sum>i<n. y ! i * row_dot (ivars ! i) v)"
  proof (rule for_loop_invariant
      [where P = "\<lambda>m t. length t = d \<and> dot v t = (\<Sum>i<m. y ! i * row_dot (ivars ! i) v)"])
    show "length (replicate d (0::real)) = d \<and>
        dot v (replicate d 0) = (\<Sum>i<0. y ! i * row_dot (ivars ! i) v)"
      using assms(1) by (simp add: dot_zero)
  next
    fix j and t :: "real list"
    assume j: "j < n"
      and inv: "length t = d \<and> dot v t = (\<Sum>i<j. y ! i * row_dot (ivars ! i) v)"
    have "length v = length t" using assms(1) inv by simp
    moreover have "\<forall>e \<in> set (entries (ivars ! j)). col e < length t"
      using assms(3) j inv by simp
    ultimately have "length (?body j t) = length t \<and>
        dot v (?body j t) = dot v t + y ! j * row_dot (ivars ! j) v"
      using row_loop_Xt [of v t "ivars ! j" "y ! j"] by (simp add: Let_def)
    then show "length (?body j t) = d \<and>
        dot v (?body j t) = (\<Sum>i<Suc j. y ! i * row_dot (ivars ! i) v)"
      using inv by simp
  qed simp
  then show ?thesis
    unfolding multiply_Xt_vec_def Let_def z0 by simp
qed

section \<open>The normalisation loops\<close>

lemma stride_index_eq:
  fixes i j c c' k :: nat
  assumes "c < k" "c' < k"
  shows "i * k + c = j * k + c' \<longleftrightarrow> i = j \<and> c = c'"
proof
  assume eq: "i * k + c = j * k + c'"
  have "(i * k + c) div k = i" "(j * k + c') div k = j"
    "(i * k + c) mod k = c" "(j * k + c') mod k = c'"
    using assms by simp_all
  then show "i = j \<and> c = c'" using eq by metis
qed simp

lemma stride_index_less:
  fixes i c k n :: nat
  assumes "i < n" "c < k"
  shows "i * k + c < n * k"
proof -
  have "i * k + c < i * k + k" using assms(2) by simp
  also have "\<dots> = Suc i * k" by simp
  also have "\<dots> \<le> n * k" using assms(1) by (intro mult_le_mono1) simp
  finally show ?thesis .
qed

lemma fold_sum: "fold (\<lambda>i s. s + f i) js a = a + sum_list (map f js)"
  for a :: real
  by (induction js arbitrary: a) (simp_all add: add.assoc)

lemma stride_update_loop:
  assumes "c < k" and "length sc = n * k"
  shows "length (for_loop 0 n (\<lambda>i t. t[i * k + c := h (t ! (i * k + c))]) sc) = n * k \<and>
    (\<forall>i < n. \<forall>c' < k.
       for_loop 0 n (\<lambda>i t. t[i * k + c := h (t ! (i * k + c))]) sc ! (i * k + c') =
         (if c' = c then h (sc ! (i * k + c)) else sc ! (i * k + c')))"
proof -
  have "length (for_loop 0 n (\<lambda>i t. t[i * k + c := h (t ! (i * k + c))]) sc) = n * k \<and>
    (\<forall>i < n. \<forall>c' < k.
       for_loop 0 n (\<lambda>i t. t[i * k + c := h (t ! (i * k + c))]) sc ! (i * k + c') =
         (if c' = c \<and> i < n then h (sc ! (i * k + c')) else sc ! (i * k + c')))"
  proof (rule for_loop_invariant
      [where P = "\<lambda>m t. length t = n * k \<and>
        (\<forall>i < n. \<forall>c' < k. t ! (i * k + c') =
           (if c' = c \<and> i < m then h (sc ! (i * k + c')) else sc ! (i * k + c')))"])
    show "length sc = n * k \<and>
      (\<forall>i<n. \<forall>c'<k. sc ! (i * k + c') =
         (if c' = c \<and> i < 0 then h (sc ! (i * k + c')) else sc ! (i * k + c')))"
      using assms(2) by simp
  next
    fix j and t :: "'a list"
    assume j: "j < n" and inv: "length t = n * k \<and>
      (\<forall>i<n. \<forall>c'<k. t ! (i * k + c') =
         (if c' = c \<and> i < j then h (sc ! (i * k + c')) else sc ! (i * k + c')))"
    have lt: "j * k + c < length t"
      using stride_index_less [OF j assms(1)] inv by simp
    have tj: "t ! (j * k + c) = sc ! (j * k + c)"
      using inv j assms(1) by simp
    show "length (t[j * k + c := h (t ! (j * k + c))]) = n * k \<and>
      (\<forall>i<n. \<forall>c'<k. t[j * k + c := h (t ! (j * k + c))] ! (i * k + c') =
         (if c' = c \<and> i < Suc j then h (sc ! (i * k + c')) else sc ! (i * k + c')))"
    proof (intro conjI allI impI)
      show "length (t[j * k + c := h (t ! (j * k + c))]) = n * k" using inv by simp
    next
      fix i c' assume i: "i < n" and c': "c' < k"
      show "t[j * k + c := h (t ! (j * k + c))] ! (i * k + c') =
         (if c' = c \<and> i < Suc j then h (sc ! (i * k + c')) else sc ! (i * k + c'))"
      proof (cases "i = j \<and> c' = c")
        case True
        then show ?thesis using lt tj by simp
      next
        case False
        then have "j * k + c \<noteq> i * k + c'"
          using stride_index_eq [OF assms(1) c', of j i] by auto
        then show ?thesis
          using inv i c' False by (auto simp: less_Suc_eq)
      qed
    qed
  qed simp
  then show ?thesis by simp
qed

lemma column_stride_update:
  assumes "c < k" and "length sc = n * k" and "c' < k"
  shows "column (for_loop 0 n (\<lambda>i t. t[i * k + c := h (t ! (i * k + c))]) sc) n k c' =
    (if c' = c then map h (column sc n k c) else column sc n k c')"
  using stride_update_loop [OF assms(1,2), of h] assms(3)
  by (auto simp: column_def)

lemma column_sum_loop:
  "for_loop 0 n (\<lambda>i s. s + g (sc ! (i * k + c))) 0 = sum_list (map g (column sc n k c))"
  for g :: "real \<Rightarrow> real"
  by (simp add: for_loop_fold fold_sum column_def comp_def)

lemma z_score_column_columns:
  assumes "c < k" and "length sc = n * k" and "c' < k"
  shows "length (z_score_column n k c sc) = n * k"
    and "column (z_score_column n k c sc) n k c' =
      (if c' = c then normalize_column n (column sc n k c) else column sc n k c')"
proof -
  define mean where "mean = for_loop 0 n (\<lambda>i sum. sum + sc ! (i * k + c)) 0 / real n"
  define sc1 where "sc1 = for_loop 0 n (\<lambda>i t. t[i * k + c := t ! (i * k + c) - mean]) sc"
  define variance where "variance =
    (if n > 1
     then for_loop 0 n (\<lambda>i sum_sq. sum_sq + sc1 ! (i * k + c) * sc1 ! (i * k + c)) 0 /
          real (n - 1)
     else 0)"
  define stddev where "stddev = (if variance > 0 then sqrt variance else 1)"
  have z: "z_score_column n k c sc =
    for_loop 0 n (\<lambda>i t. t[i * k + c := t ! (i * k + c) / stddev]) sc1"
    by (simp add: z_score_column_def Let_def mean_def sc1_def variance_def stddev_def)
  have mean: "mean = sum_list (column sc n k c) / real n"
    unfolding mean_def using column_sum_loop [of n "\<lambda>x. x" sc k c] by simp
  have variance: "variance =
    (if n > 1 then sum_list (map (\<lambda>y. y * y) (column sc1 n k c)) / real (n - 1) else 0)"
    unfolding variance_def using column_sum_loop [of n "\<lambda>y. y * y" sc1 k c] by simp
  have len1: "length sc1 = n * k"
    unfolding sc1_def using stride_update_loop [OF assms(1,2), of "\<lambda>x. x - mean"] by simp
  have col1: "column sc1 n k c' =
      (if c' = c then map (\<lambda>x. x - mean) (column sc n k c) else column sc n k c')"
    unfolding sc1_def using column_stride_update [OF assms, of "\<lambda>x. x - mean"] by simp
  have col1c: "column sc1 n k c = map (\<lambda>x. x - mean) (column sc n k c)"
    unfolding sc1_def using column_stride_update [OF assms(1,2,1), of "\<lambda>x. x - mean"] by simp
  show "length (z_score_column n k c sc) = n * k"
    unfolding z using stride_update_loop [OF assms(1) len1, of "\<lambda>y. y / stddev"] by simp
  have "column (z_score_column n k c sc) n k c' =
      (if c' = c then map (\<lambda>y. y / stddev) (column sc1 n k c) else column sc1 n k c')"
    unfolding z using column_stride_update [OF assms(1) len1 assms(3), of "\<lambda>y. y / stddev"]
    by simp
  moreover have "normalize_column n (column sc n k c) = map (\<lambda>y. y / stddev) (column sc1 n k c)"
    unfolding normalize_column_def Let_def stddev_def variance col1c mean
    by (rule refl)
  ultimately show "column (z_score_column n k c sc) n k c' =
      (if c' = c then normalize_column n (column sc n k c) else column sc n k c')"
    using col1 by simp
qed

lemma z_score_pca_scores_columns:
  assumes "length sc = n * k" and "c < k"
  shows "column (z_score_pca_scores sc n k) n k c = normalize_column n (column sc n k c)"
proof -
  have "length (for_loop 0 k (z_score_column n k) sc) = n * k \<and>
    (\<forall>c < k. column (for_loop 0 k (z_score_column n k) sc) n k c =
       (if c < k then normalize_column n (column sc n k c) else column sc n k c))"
  proof (rule for_loop_invariant
      [where P = "\<lambda>m t. length t = n * k \<and>
        (\<forall>c < k. column t n k c =
           (if c < m then normalize_column n (column sc n k c) else column sc n k c))"])
    show "length sc = n * k \<and>
      (\<forall>c<k. column sc n k c =
         (if c < 0 then normalize_column n (column sc n k c) else column sc n k c))"
      using assms(1) by simp
  next
    fix j and t :: "real list"
    assume j: "j < k" and inv: "length t = n * k \<and>
      (\<forall>c<k. column t n k c =
         (if c < j then normalize_column n (column sc n k c) else column sc n k c))"
    have len: "length t = n * k" using inv by simp
    have cj: "column t n k j = column sc n k j" using inv j by simp
    show "length (z_score_column n k j t) = n * k \<and>
      (\<forall>c<k. column (z_score_column n k j t) n k c =
         (if c < Suc j then normalize_column n (column sc n k c) else column sc n k c))"
    proof (intro conjI allI impI)
      show "length (z_score_column n k j t) = n * k"
        using z_score_column_columns(1) [OF j len j] .
    next
      fix c assume c: "c < k"
      show "column (z_score_column n k j t) n k c =
         (if c < Suc j then normalize_column n (column sc n k c) else column sc n k c)"
        using z_score_column_columns(2) [OF j len c] inv c cj
        by (auto simp: less_Suc_eq)
    qed
  qed simp
  then show ?thesis
    using assms(2) by (simp add: z_score_pca_scores_def)
qed

lemma sum_list_centered:
  "sum_list (map (\<lambda>x. x - m) xs) = sum_list xs - real (length xs) * m"
  by (induction xs) (simp_all add: algebra_simps)

lemma sum_list_divide: "sum_list (map (\<lambda>y. f y / s) ys) = sum_list (map f ys) / s"
  for s :: real
  by (induction ys) (simp_all add: add_divide_distrib)

lemma sum_list_squares_nonneg: "0 \<le> sum_list (map (\<lambda>x. (x - m) * (x - m)) xs)"
  for m :: real
  by (induction xs) simp_all

lemma sum_list_squares_zero:
  "sum_list (map (\<lambda>x. (x - m) * (x - m)) xs) = 0 \<Longrightarrow> x \<in> set xs \<Longrightarrow> x = m"
  for m :: real
proof (induction xs)
  case Nil
  then show ?case by simp
next
  case (Cons a xs)
  have "0 \<le> (a - m) * (a - m)" by simp
  moreover have "0 \<le> sum_list (map (\<lambda>x. (x - m) * (x - m)) xs)"
    by (rule sum_list_squares_nonneg)
  ultimately have "(a - m) * (a - m) = 0" and "sum_list (map (\<lambda>x. (x - m) * (x - m)) xs) = 0"
    using Cons.prems(1) by (simp_all add: add_nonneg_eq_0_iff)
  then show ?case using Cons by auto
qed

lemma normalize_column_stats:
  assumes "2 \<le> n" and "length xs = n"
  shows "sample_mean (normalize_column n xs) = 0"
    and "sample_variance xs \<noteq> 0 \<Longrightarrow> sample_stddev (normalize_column n xs) = 1"
    and "sample_variance xs = 0 \<Longrightarrow> normalize_column n xs = replicate n 0"
proof -
  define m where "m = sum_list xs / real n"
  define var where "var = sum_list (map (\<lambda>x. (x - m) * (x - m)) xs) / real (n - 1)"
  define sd where "sd = (if var > 0 then sqrt var else 1)"
  have n0: "real n \<noteq> 0" and n1: "0 < real (n - 1)" and gt: "1 < n" using assms(1) by simp_all
  have sm: "sample_mean xs = m" by (simp add: sample_mean_def m_def assms(2))
  have sv: "sample_variance xs = var" by (simp add: sample_variance_def var_def sm assms(2))
  have var0: "0 \<le> var"
    unfolding var_def using sum_list_squares_nonneg [of m xs] n1 by simp
  have sd0: "0 < sd" using var0 by (simp add: sd_def)
  have nc: "normalize_column n xs = map (\<lambda>x. (x - m) / sd) xs"
    using gt by (simp add: normalize_column_def Let_def m_def var_def sd_def comp_def)
  have centered: "sum_list (map (\<lambda>x. x - m) xs) = 0"
    using n0 by (simp add: sum_list_centered assms(2) m_def)
  have "sum_list (map (\<lambda>x. (x - m) / sd) xs) = 0"
    using sum_list_divide [of "\<lambda>x. x - m" sd xs] centered by simp
  then show mean0: "sample_mean (normalize_column n xs) = 0"
    by (simp add: sample_mean_def nc)
  show "sample_stddev (normalize_column n xs) = 1" if "sample_variance xs \<noteq> 0"
  proof -
    have pos: "0 < var" using that sv var0 by simp
    then have sd2: "sd * sd = var" by (simp add: sd_def)
    have "sum_list (map (\<lambda>x. ((x - m) / sd) * ((x - m) / sd)) xs) =
        sum_list (map (\<lambda>x. (x - m) * (x - m) / var) xs)"
      by (simp add: sd2 [symmetric])
    also have "\<dots> = sum_list (map (\<lambda>x. (x - m) * (x - m)) xs) / var"
      by (rule sum_list_divide)
    also have "\<dots> = var * real (n - 1) / var"
      using n1 by (simp add: var_def)
    also have "\<dots> = real (n - 1)"
      using pos by simp
    finally have "sample_variance (normalize_column n xs) = 1"
      using mean0 n1 by (simp add: sample_variance_def nc comp_def assms(2))
    then show ?thesis by (simp add: sample_stddev_def)
  qed
  show "normalize_column n xs = replicate n 0" if "sample_variance xs = 0"
  proof -
    have "sum_list (map (\<lambda>x. (x - m) * (x - m)) xs) = 0"
      using that sv n1 by (simp add: var_def)
    then have "\<forall>x \<in> set xs. x = m"
      using sum_list_squares_zero by blast
    then have "map (\<lambda>x. (x - m) / sd) xs = map (\<lambda>x. 0) xs"
      by (intro map_cong) simp_all
    then show ?thesis
      by (simp add: nc map_replicate_const assms(2))
  qed
qed

lemma length_column: "length (column m n k c) = n"
  by (simp add: column_def)

section \<open>Properties of the sparse products and of the normalisation\<close>

text \<open>
  C4: the two sparse products are exact adjoints. For every sparse matrix of \<open>n\<close> rows
  whose entries have their columns below \<open>d\<close>, every vector \<open>v\<close> of length \<open>d\<close> and
  every vector \<open>y\<close> of length \<open>n\<close>, the dot product of \<open>X v\<close> with \<open>y\<close> equals the dot
  product of \<open>v\<close> with \<open>X\<^sup>T y\<close> (exact arithmetic). \<open>yb\<close> and \<open>zb\<close> are the output
  buffers, of lengths \<open>n\<close> and \<open>d\<close>, whatever they hold.
\<close>

theorem sparse_products_adjoint:
  assumes "length v = d" and "length y = n" and "length yb = n" and "length zb = d"
    and "\<forall>i < n. \<forall>e \<in> set (entries (ivars ! i)). col e < d"
  shows "dot (multiply_X_vec ivars n v yb) y = dot v (multiply_Xt_vec ivars n d y zb)"
proof -
  have "dot (multiply_X_vec ivars n v yb) y = (\<Sum>i<n. row_dot (ivars ! i) v * y ! i)"
    using assms(2,3) by (simp add: multiply_X_vec_rows dot_sum)
  also have "\<dots> = (\<Sum>i<n. y ! i * row_dot (ivars ! i) v)"
    by (simp add: mult.commute)
  also have "\<dots> = dot v (multiply_Xt_vec ivars n d y zb)"
    using multiply_Xt_vec_dot [OF assms(1,4,5)] by simp
  finally show ?thesis .
qed

theorem sparse_products_adjoint_witness:
  "length [1, 2, 3 :: real] = 3 \<and> length [4, 5 :: real] = 2 \<and> length [7, 7 :: real] = 2 \<and>
   length [9, 9, 9 :: real] = 3 \<and>
   list_all (\<lambda>iv. list_all (\<lambda>e. col e < 3) (entries iv)) example_matrix \<and>
   dot (multiply_X_vec example_matrix 2 [1, 2, 3] [7, 7]) [4, 5] = 25 / 2 \<and>
   dot [1, 2, 3] (multiply_Xt_vec example_matrix 2 3 [4, 5] [9, 9, 9]) = 25 / 2"
proof -
  have l1: "length [1, 2, 3 :: real] = 3" and l2: "length [4, 5 :: real] = 2"
    and l3: "length [7, 7 :: real] = 2" and l4: "length [9, 9, 9 :: real] = 3"
    by simp_all
  have cols: "\<forall>i < 2. \<forall>e \<in> set (entries (example_matrix ! i)). col e < 3"
    by (auto simp: example_matrix_def less_Suc_eq numeral_2_eq_2)
  have all: "list_all (\<lambda>iv. list_all (\<lambda>e. col e < 3) (entries iv)) example_matrix"
    by (simp add: example_matrix_def)
  have "dot (multiply_X_vec example_matrix 2 [1, 2, 3] [7, 7]) [4, 5] = 25 / 2"
    by (simp add: multiply_X_vec_def for_loop.simps example_matrix_def num_entries_def
        dot_def Let_def)
  then show ?thesis
    using l1 l2 l3 l4 all
      sparse_products_adjoint [OF l1 l2 l3 l4 cols]
    by simp
qed

text \<open>
  C5: after the z-score normalisation of the scores matrix (\<open>n \<ge> 2\<close> individuals, \<open>k\<close>
  components, row-major), every column has sample mean 0; a column whose raw sample
  variance (\<open>n - 1\<close> denominator) is nonzero has sample standard deviation 1; a column
  whose raw variance is zero is divided by 1 and all its entries are zero (exact
  arithmetic).
\<close>

theorem z_score_columns_normalised:
  assumes "2 \<le> n" and "c < k" and "length sc = n * k"
  shows "sample_mean (column (z_score_pca_scores sc n k) n k c) = 0 \<and>
    (sample_variance (column sc n k c) \<noteq> 0 \<longrightarrow>
       sample_stddev (column (z_score_pca_scores sc n k) n k c) = 1) \<and>
    (sample_variance (column sc n k c) = 0 \<longrightarrow>
       column (z_score_pca_scores sc n k) n k c = replicate n 0)"
  using normalize_column_stats [OF assms(1) length_column [of sc n k c]]
  by (simp add: z_score_pca_scores_columns [OF assms(3,2)])

theorem z_score_columns_normalised_witness:
  "(2::nat) \<le> 2 \<and> (0::nat) < 2 \<and> (1::nat) < 2 \<and> length [1, 5, 3, 5 :: real] = 2 * 2 \<and>
   sample_variance (column [1, 5, 3, 5] 2 2 0) = 2 \<and>
   sample_mean (column (z_score_pca_scores [1, 5, 3, 5] 2 2) 2 2 0) = 0 \<and>
   sample_stddev (column (z_score_pca_scores [1, 5, 3, 5] 2 2) 2 2 0) = 1 \<and>
   sample_variance (column [1, 5, 3, 5] 2 2 1) = 0 \<and>
   sample_mean (column (z_score_pca_scores [1, 5, 3, 5] 2 2) 2 2 1) = 0 \<and>
   column (z_score_pca_scores [1, 5, 3, 5] 2 2) 2 2 1 = [0, 0]"
proof -
  have n: "(2::nat) \<le> 2" and c0: "(0::nat) < 2" and c1: "(1::nat) < 2"
    and len: "length [1, 5, 3, 5 :: real] = 2 * 2"
    by simp_all
  have v0: "sample_variance (column [1, 5, 3, 5] 2 2 0) = 2"
    by (simp add: sample_variance_def sample_mean_def column_def upt_conv_Cons)
  have v1: "sample_variance (column [1, 5, 3, 5] 2 2 1) = 0"
    by (simp add: sample_variance_def sample_mean_def column_def upt_conv_Cons)
  note t0 = z_score_columns_normalised [OF n c0 len]
  note t1 = z_score_columns_normalised [OF n c1 len]
  have m0: "sample_mean (column (z_score_pca_scores [1, 5, 3, 5] 2 2) 2 2 0) = 0"
    using t0 by blast
  have s0: "sample_stddev (column (z_score_pca_scores [1, 5, 3, 5] 2 2) 2 2 0) = 1"
    using t0 v0 by simp
  have m1: "sample_mean (column (z_score_pca_scores [1, 5, 3, 5] 2 2) 2 2 1) = 0"
    using t1 by blast
  have "column (z_score_pca_scores [1, 5, 3, 5] 2 2) 2 2 1 = replicate 2 0"
    using t1 v1 by blast
  then have z1: "column (z_score_pca_scores [1, 5, 3, 5] 2 2) 2 2 1 = [0, 0]"
    by (simp add: numeral_2_eq_2)
  show ?thesis
    using n c0 c1 len v0 v1 m0 s0 m1 z1 by blast
qed

end
